theory Spec2Isabelle
  imports Main "HOL-Library.Word" "HOL-Library.Sublist"
begin

section \<open>Cache replacement policies of \<^verbatim>\<open>infra/replacement/cache_replacement.cpp\<close>\<close>

text \<open>
  \<^verbatim>\<open>std::size_t\<close> is a 64-bit unsigned integer: addition, subtraction and
  multiplication wrap around.
\<close>

type_synonym size_t = "64 word"

text \<open>
  Everything that ends a call without a result is a value of \<open>error\<close>:
  \<^item> \<open>CacheReplacementException msg\<close>: the exception the module throws itself;
  \<^item> \<open>LengthError\<close>: \<^verbatim>\<open>std::length_error\<close>, thrown by the constructor of
    \<^verbatim>\<open>std::vector\<close> when asked for more than \<^verbatim>\<open>max_size()\<close> elements;
  \<^item> \<open>AssertionFailed\<close>: a failed \<^verbatim>\<open>assert\<close>;
  \<^item> \<open>UndefinedBehaviour\<close>: a read or write outside an array, \<^verbatim>\<open>back()\<close> of an empty
    list, an iterator that does not point into the list.
\<close>

datatype error =
    CacheReplacementException string
  | LengthError
  | AssertionFailed
  | UndefinedBehaviour

subsection \<open>\<^verbatim>\<open>std::list<std::size_t>\<close> with stable iterators\<close>

text \<open>
  A list is the sequence of its nodes, front first. A node is a pair of its address and
  the value it holds. An iterator is the address of a node, or \<open>End\<close>. Splicing moves a
  node and keeps its address, so iterators stored elsewhere stay valid; erasing a node
  frees its address and inserting allocates one that no live node has.
\<close>

datatype iterator = Node nat | End

type_synonym std_list = "(nat \<times> size_t) list"

definition list_begin :: "std_list \<Rightarrow> iterator" where
  "list_begin xs = (case xs of [] \<Rightarrow> End | (a, v) # rest \<Rightarrow> Node a)"

definition list_end :: "std_list \<Rightarrow> iterator" where
  "list_end xs = End"

definition new_node :: "std_list \<Rightarrow> nat" where
  "new_node xs = Suc (fold max (map fst xs) 0)"

fun insert_before :: "iterator \<Rightarrow> nat \<times> size_t \<Rightarrow> std_list \<Rightarrow> error + std_list" where
  "insert_before End n [] = Inr [n]"
| "insert_before (Node p) n [] = Inl UndefinedBehaviour"
| "insert_before pos n ((a, v) # rest) =
     (if pos = Node a then Inr (n # (a, v) # rest)
      else case insert_before pos n rest of
             Inl e \<Rightarrow> Inl e
           | Inr rest' \<Rightarrow> Inr ((a, v) # rest'))"

definition remove_node :: "nat \<Rightarrow> std_list \<Rightarrow> std_list" where
  "remove_node a xs = filter (\<lambda>n. fst n \<noteq> a) xs"

definition list_push_front :: "size_t \<Rightarrow> std_list \<Rightarrow> std_list" where
  "list_push_front v xs = (new_node xs, v) # xs"

definition list_insert :: "iterator \<Rightarrow> size_t \<Rightarrow> std_list \<Rightarrow> error + (iterator \<times> std_list)" where
  "list_insert pos v xs =
     (let a = new_node xs in
      case insert_before pos (a, v) xs of
        Inl e \<Rightarrow> Inl e
      | Inr xs' \<Rightarrow> Inr (Node a, xs'))"

definition list_back :: "std_list \<Rightarrow> error + size_t" where
  "list_back xs = (if xs = [] then Inl UndefinedBehaviour else Inr (snd (last xs)))"

definition list_pop_back :: "std_list \<Rightarrow> error + std_list" where
  "list_pop_back xs = (if xs = [] then Inl UndefinedBehaviour else Inr (butlast xs))"

text \<open>
  \<^verbatim>\<open>xs.splice(pos, xs, it)\<close>: the node \<open>it\<close> is moved in front of \<open>pos\<close>; nothing
  happens when \<open>pos\<close> is \<open>it\<close> itself.
\<close>

definition list_splice :: "iterator \<Rightarrow> std_list \<Rightarrow> iterator \<Rightarrow> error + std_list" where
  "list_splice pos xs it =
     (case it of
        End \<Rightarrow> Inl UndefinedBehaviour
      | Node a \<Rightarrow>
          (case map_of xs a of
             None \<Rightarrow> Inl UndefinedBehaviour
           | Some v \<Rightarrow>
               if pos = Node a then Inr xs
               else insert_before pos (a, v) (remove_node a xs)))"

subsection \<open>class LRU\<close>

text \<open>
  \<^verbatim>\<open>lru_hash\<close> is a \<^verbatim>\<open>dense_hash_map\<close> from ways to iterators of \<^verbatim>\<open>lru_list\<close>. Its empty
  key is \<^verbatim>\<open>impossible_key = SIZE_MAX\<close>, which is never stored: the constructor stores
  the keys \<open>i < ways\<close> only.
\<close>

record LRU =
  lru_list :: std_list
  ways :: size_t
  lru_hash :: "size_t \<rightharpoonup> iterator"

definition impossible_key :: size_t where
  "impossible_key = - 1"

text \<open>\<^verbatim>\<open>emplace\<close> stores the pair only when the key is not in the map yet.\<close>

definition hash_emplace :: "size_t \<Rightarrow> iterator \<Rightarrow> (size_t \<rightharpoonup> iterator) \<Rightarrow> (size_t \<rightharpoonup> iterator)" where
  "hash_emplace k it h = (case h k of None \<Rightarrow> h(k \<mapsto> it) | Some old \<Rightarrow> h)"

text \<open>
  The body of the constructor's loop: \<^verbatim>\<open>lru_list.push_front( i); lru_hash.emplace( i, lru_list.begin());\<close>
\<close>

definition LRU_ctor_body :: "size_t \<Rightarrow> LRU \<Rightarrow> LRU" where
  "LRU_ctor_body i s =
     (let l = list_push_front i (lru_list s) in
      s\<lparr>lru_list := l, lru_hash := hash_emplace i (list_begin l) (lru_hash s)\<rparr>)"

function LRU_ctor_loop :: "size_t \<Rightarrow> size_t \<Rightarrow> LRU \<Rightarrow> LRU" where
  "LRU_ctor_loop n i s = (if i < n then LRU_ctor_loop n (i + 1) (LRU_ctor_body i s) else s)"
  by pat_completeness auto
termination
proof (relation "measure (\<lambda>(n, i, s). unat n - unat i)")
  fix n i :: size_t and s :: LRU
  assume less: "i < n"
  then have "i \<noteq> - 1" by auto
  then have "1 + i \<noteq> 0" by (simp add: eq_neg_iff_add_eq_0 add.commute)
  then have "unat (i + 1) = Suc (unat i)" by (simp add: unatSuc add.commute)
  with less show "((n, i + 1, LRU_ctor_body i s), (n, i, s)) \<in> measure (\<lambda>(n, i, s). unat n - unat i)"
    by (simp add: word_less_nat_alt)
qed simp

declare LRU_ctor_loop.simps [simp del]

definition LRU_new :: "size_t \<Rightarrow> LRU" where
  "LRU_new n = LRU_ctor_loop n 0 \<lparr>lru_list = [], ways = n, lru_hash = Map.empty\<rparr>"

definition LRU_touch :: "size_t \<Rightarrow> LRU \<Rightarrow> error + LRU" where
  "LRU_touch way s =
     (case lru_hash s way of
        None \<Rightarrow> Inl AssertionFailed
      | Some it \<Rightarrow>
          (case list_splice (list_begin (lru_list s)) (lru_list s) it of
             Inl e \<Rightarrow> Inl e
           | Inr l \<Rightarrow> Inr (s\<lparr>lru_list := l\<rparr>)))"

definition LRU_set_to_erase :: "size_t \<Rightarrow> LRU \<Rightarrow> error + LRU" where
  "LRU_set_to_erase way s =
     (case lru_hash s way of
        None \<Rightarrow> Inl AssertionFailed
      | Some it \<Rightarrow>
          (case list_splice (list_end (lru_list s)) (lru_list s) it of
             Inl e \<Rightarrow> Inl e
           | Inr l \<Rightarrow> Inr (s\<lparr>lru_list := l\<rparr>)))"

definition LRU_update :: "LRU \<Rightarrow> error + (size_t \<times> LRU)" where
  "LRU_update s =
     (case list_back (lru_list s) of
        Inl e \<Rightarrow> Inl e
      | Inr lru_elem \<Rightarrow>
          (case list_pop_back (lru_list s) of
             Inl e \<Rightarrow> Inl e
           | Inr l \<Rightarrow>
               (case list_insert (list_begin l) lru_elem l of
                  Inl e \<Rightarrow> Inl e
                | Inr (ptr, l') \<Rightarrow>
                    Inr (lru_elem, s\<lparr>lru_list := l', lru_hash := (lru_hash s)(lru_elem \<mapsto> ptr)\<rparr>))))"

definition LRU_get_ways :: "LRU \<Rightarrow> size_t" where
  "LRU_get_ways s = ways s"

subsection \<open>\<^verbatim>\<open>std::vector\<close>\<close>

text \<open>
  A vector is the list of its elements. \<^verbatim>\<open>max_size()\<close> of a vector of 4-byte elements
  is \<^verbatim>\<open>PTRDIFF_MAX / 4\<close>; the constructor throws \<^verbatim>\<open>std::length_error\<close> beyond
  it. Storage is taken to be available for every request within \<^verbatim>\<open>max_size()\<close>:
  \<^verbatim>\<open>std::bad_alloc\<close> is not modelled, so nothing is stated here about the
  construction of vectors that the machine cannot hold. \<^verbatim>\<open>operator[]\<close> does not check
  its index.
\<close>

definition vector_max_size :: nat where
  "vector_max_size = (2 ^ 63 - 1) div 4"

definition vector_new :: "size_t \<Rightarrow> 'a \<Rightarrow> error + 'a list" where
  "vector_new n v = (if vector_max_size < unat n then Inl LengthError else Inr (replicate (unat n) v))"

definition vector_size :: "'a list \<Rightarrow> size_t" where
  "vector_size xs = of_nat (length xs)"

definition vector_read :: "'a list \<Rightarrow> size_t \<Rightarrow> error + 'a" where
  "vector_read xs i = (if unat i < length xs then Inr (xs ! unat i) else Inl UndefinedBehaviour)"

definition vector_write :: "'a list \<Rightarrow> size_t \<Rightarrow> 'a \<Rightarrow> error + 'a list" where
  "vector_write xs i v = (if unat i < length xs then Inr (xs[unat i := v]) else Inl UndefinedBehaviour)"

subsection \<open>class PseudoLRU\<close>

datatype Flags = Left | Right

record PseudoLRU =
  nodes :: "Flags list"
  ways :: size_t

text \<open>
  Modelled from the spec: \<^verbatim>\<open>is_power_of_two\<close> of \<^verbatim>\<open>infra/macro.h\<close> is missing from the
  sources; the specification asks for an exact power of two.
\<close>

definition is_power_of_two :: "size_t \<Rightarrow> bool" where
  "is_power_of_two n = (\<exists>k \<in> set [0..<64]. n = 2 ^ k)"

definition get_next_node :: "Flags list \<Rightarrow> size_t \<Rightarrow> error + size_t" where
  "get_next_node ns node =
     (case vector_read ns node of
        Inl e \<Rightarrow> Inl e
      | Inr f \<Rightarrow> Inr (node * 2 + (if f = Left then 1 else 2)))"

definition get_direction_to_prev_node :: "size_t \<Rightarrow> Flags" where
  "get_direction_to_prev_node node = (if node mod 2 \<noteq> 0 then Left else Right)"

definition reverse_node :: "Flags list \<Rightarrow> size_t \<Rightarrow> error + Flags list" where
  "reverse_node ns node =
     (case vector_read ns node of
        Inl e \<Rightarrow> Inl e
      | Inr f \<Rightarrow> vector_write ns node (if f = Left then Right else Left))"

text \<open>
  The member initialisers run before the constructor's body: the vector of
  \<^verbatim>\<open>ways - 1\<close> flags is built first, the power-of-two check comes second.
\<close>

definition PseudoLRU_new :: "size_t \<Rightarrow> error + PseudoLRU" where
  "PseudoLRU_new n =
     (case vector_new (n - 1) Left of
        Inl e \<Rightarrow> Inl e
      | Inr ns \<Rightarrow>
          if \<not> is_power_of_two n
          then Inl (CacheReplacementException ''Number of ways must be the power of 2!'')
          else Inr \<lparr>nodes = ns, ways = n\<rparr>)"

function PseudoLRU_touch_loop :: "Flags list \<Rightarrow> size_t \<Rightarrow> error + Flags list" where
  "PseudoLRU_touch_loop ns node =
     (if node \<noteq> 0 then
        (let parent = (node - 1) div 2 in
         case vector_read ns parent of
           Inl e \<Rightarrow> Inl e
         | Inr f \<Rightarrow>
             if get_direction_to_prev_node node = f
             then (case reverse_node ns parent of
                     Inl e \<Rightarrow> Inl e
                   | Inr ns' \<Rightarrow> PseudoLRU_touch_loop ns' parent)
             else PseudoLRU_touch_loop ns parent)
      else Inr ns)"
  by pat_completeness auto
termination
proof (relation "measure (\<lambda>(ns, node). unat node)")
  show "wf (measure (\<lambda>(ns, node). unat node))" by simp
next
  fix ns ns' :: "Flags list" and node parent :: size_t
  assume "node \<noteq> 0" and "parent = (node - 1) div 2"
  then have "unat parent \<le> unat node - 1" and "0 < unat node"
    by (simp_all add: unat_div unat_minus_one unat_gt_0)
  then have "unat parent < unat node"
    by arith
  then show "((ns', parent), (ns, node)) \<in> measure (\<lambda>(ns, node). unat node)" by simp
  then show "((ns, parent), (ns, node)) \<in> measure (\<lambda>(ns, node). unat node)" by simp
qed

declare PseudoLRU_touch_loop.simps [simp del]

definition PseudoLRU_touch :: "size_t \<Rightarrow> PseudoLRU \<Rightarrow> error + PseudoLRU" where
  "PseudoLRU_touch way s =
     (case PseudoLRU_touch_loop (nodes s) (way + vector_size (nodes s)) of
        Inl e \<Rightarrow> Inl e
      | Inr ns \<Rightarrow> Inr (s\<lparr>nodes := ns\<rparr>))"

text \<open>
  The walk of \<^verbatim>\<open>update\<close> from the root to a leaf. \<open>None\<close> is a walk that never
  ends.
\<close>

partial_function (option) PseudoLRU_update_loop :: "Flags list \<Rightarrow> size_t \<Rightarrow> (error + size_t) option" where
  "PseudoLRU_update_loop ns node =
     (if node < vector_size ns then
        (case get_next_node ns node of
           Inl e \<Rightarrow> Some (Inl e)
         | Inr node' \<Rightarrow> PseudoLRU_update_loop ns node')
      else Some (Inr node))"

declare PseudoLRU_update_loop.simps [code]

definition PseudoLRU_update :: "PseudoLRU \<Rightarrow> (error + size_t \<times> PseudoLRU) option" where
  "PseudoLRU_update s =
     (case PseudoLRU_update_loop (nodes s) 0 of
        None \<Rightarrow> None
      | Some (Inl e) \<Rightarrow> Some (Inl e)
      | Some (Inr node) \<Rightarrow>
          (let way = node - vector_size (nodes s) in
           case PseudoLRU_touch way s of
             Inl e \<Rightarrow> Some (Inl e)
           | Inr s' \<Rightarrow> Some (Inr (way, s'))))"

text \<open>
  \<^verbatim>\<open>set_to_erase\<close> throws. An exception leaves the object alive, so the state at the
  throw is returned next to the error.
\<close>

definition PseudoLRU_set_to_erase :: "size_t \<Rightarrow> PseudoLRU \<Rightarrow> (error + unit) \<times> PseudoLRU" where
  "PseudoLRU_set_to_erase way s =
     (Inl (CacheReplacementException ''PLRU does not support inverted access''), s)"

definition PseudoLRU_get_ways :: "PseudoLRU \<Rightarrow> size_t" where
  "PseudoLRU_get_ways s = ways s"

subsection \<open>The factory\<close>

datatype CacheReplacement = LRU_object LRU | PseudoLRU_object PseudoLRU

definition undefined_policy_message :: "string \<Rightarrow> string" where
  "undefined_policy_message name =
     [CHR 0x22] @ name @ [CHR 0x22] @ '' replacement policy is not defined, supported polices are:''
       @ [CHR 0x0A] @ ''LRU'' @ [CHR 0x0A] @ ''pseudo-LRU'' @ [CHR 0x0A]"

definition create_cache_replacement :: "string \<Rightarrow> size_t \<Rightarrow> error + CacheReplacement" where
  "create_cache_replacement name n =
     (if name = ''LRU'' then Inr (LRU_object (LRU_new n))
      else if name = ''Pseudo-LRU'' then
        (case PseudoLRU_new n of
           Inl e \<Rightarrow> Inl e
         | Inr s \<Rightarrow> Inr (PseudoLRU_object s))
      else Inl (CacheReplacementException (undefined_policy_message name)))"

subsection \<open>Histories of calls\<close>

datatype call = Touch size_t | SetToErase size_t | Update

text \<open>
  A history of calls on one engine, stopping at the first error; the result holds the
  ways the \<^verbatim>\<open>update\<close> calls returned, in order, and the final state.
\<close>

fun LRU_calls :: "call list \<Rightarrow> LRU \<Rightarrow> error + (size_t list \<times> LRU)" where
  "LRU_calls [] s = Inr ([], s)"
| "LRU_calls (Touch w # cs) s =
     (case LRU_touch w s of Inl e \<Rightarrow> Inl e | Inr s' \<Rightarrow> LRU_calls cs s')"
| "LRU_calls (SetToErase w # cs) s =
     (case LRU_set_to_erase w s of Inl e \<Rightarrow> Inl e | Inr s' \<Rightarrow> LRU_calls cs s')"
| "LRU_calls (Update # cs) s =
     (case LRU_update s of
        Inl e \<Rightarrow> Inl e
      | Inr (w, s') \<Rightarrow>
          (case LRU_calls cs s' of Inl e \<Rightarrow> Inl e | Inr (ws, s'') \<Rightarrow> Inr (w # ws, s'')))"

fun PseudoLRU_calls :: "call list \<Rightarrow> PseudoLRU \<Rightarrow> (error + (size_t list \<times> PseudoLRU)) option" where
  "PseudoLRU_calls [] s = Some (Inr ([], s))"
| "PseudoLRU_calls (Touch w # cs) s =
     (case PseudoLRU_touch w s of Inl e \<Rightarrow> Some (Inl e) | Inr s' \<Rightarrow> PseudoLRU_calls cs s')"
| "PseudoLRU_calls (SetToErase w # cs) s =
     (case PseudoLRU_set_to_erase w s of
        (Inl e, s') \<Rightarrow> Some (Inl e)
      | (Inr u, s') \<Rightarrow> PseudoLRU_calls cs s')"
| "PseudoLRU_calls (Update # cs) s =
     (case PseudoLRU_update s of
        None \<Rightarrow> None
      | Some (Inl e) \<Rightarrow> Some (Inl e)
      | Some (Inr (w, s')) \<Rightarrow>
          (case PseudoLRU_calls cs s' of
             None \<Rightarrow> None
           | Some (Inl e) \<Rightarrow> Some (Inl e)
           | Some (Inr (ws, s'')) \<Rightarrow> Some (Inr (w # ws, s''))))"

subsection \<open>What the specification says about the exact-recency engine\<close>

text \<open>A call respects the contract of an engine with \<open>n\<close> ways.\<close>

definition call_ok :: "size_t \<Rightarrow> call \<Rightarrow> bool" where
  "call_ok n c = (case c of Touch w \<Rightarrow> w < n | SetToErase w \<Rightarrow> w < n | Update \<Rightarrow> 0 < n)"

text \<open>The recency sequence: the ways held by the nodes, front to back.\<close>

definition lru_order :: "LRU \<Rightarrow> size_t list" where
  "lru_order s = map snd (lru_list s)"

text \<open>
  The invariant of the data model: the sequence holds each way below \<open>ways\<close> exactly
  once; the nodes have distinct addresses; the mapping has the ways below \<open>ways\<close> as
  its keys and sends each to the node that holds it.
\<close>

definition LRU_inv :: "LRU \<Rightarrow> bool" where
  "LRU_inv s \<longleftrightarrow>
     distinct (lru_order s) \<and>
     set (lru_order s) = {w. w < LRU.ways s} \<and>
     distinct (map fst (lru_list s)) \<and>
     dom (lru_hash s) = {w. w < LRU.ways s} \<and>
     (\<forall>w. w < LRU.ways s \<longrightarrow> (\<exists>a. lru_hash s w = Some (Node a) \<and> (a, w) \<in> set (lru_list s)))"

text \<open>
  The way \<open>w\<close> is the least recently touched of the \<open>n\<close> ways after the touches
  \<open>ts\<close>: when some way was never touched, \<open>w\<close> is the smallest of those (way 0 is
  constructed first); otherwise every other way is touched after the last touch of \<open>w\<close>.
\<close>

definition least_recently_touched :: "size_t \<Rightarrow> size_t list \<Rightarrow> size_t \<Rightarrow> bool" where
  "least_recently_touched n ts w \<longleftrightarrow>
     w < n \<and>
     (if \<exists>v. v < n \<and> v \<notin> set ts
      then w \<notin> set ts \<and> (\<forall>v. v < n \<and> v \<notin> set ts \<longrightarrow> w \<le> v)
      else \<exists>pre post. ts = pre @ w # post \<and> w \<notin> set post \<and>
             (\<forall>v. v < n \<and> v \<noteq> w \<longrightarrow> v \<in> set post))"

text \<open>
  What holds in the constructor before the round of its loop for way \<open>i\<close>: the ways
  below \<open>i\<close> are in the sequence, the last pushed first, and in the mapping.
\<close>

definition LRU_ctor_inv :: "size_t \<Rightarrow> size_t \<Rightarrow> LRU \<Rightarrow> bool" where
  "LRU_ctor_inv n i s \<longleftrightarrow>
     LRU.ways s = n \<and>
     distinct (map fst (lru_list s)) \<and>
     lru_order s = rev (map of_nat [0..<unat i]) \<and>
     (\<forall>w. \<not> w < i \<longrightarrow> lru_hash s w = None) \<and>
     (\<forall>w. w < i \<longrightarrow> (\<exists>a. lru_hash s w = Some (Node a) \<and> (a, w) \<in> set (lru_list s)))"

text \<open>
  The shape of the bit tree: one bit for each way but one, and few enough of them for
  the vector.
\<close>

definition PseudoLRU_inv :: "PseudoLRU \<Rightarrow> bool" where
  "PseudoLRU_inv s \<longleftrightarrow>
     length (nodes s) \<le> vector_max_size \<and> unat (PseudoLRU.ways s) = Suc (length (nodes s))"

section \<open>Construction of the bit tree, its \<^verbatim>\<open>set_to_erase\<close>, and the factory\<close>

subsection \<open>Construction of the bit tree\<close>

lemma is_power_of_two_4: "is_power_of_two 4"
  unfolding is_power_of_two_def by (rule bexI [of _ 2]) simp_all

lemma not_is_power_of_two_3: "\<not> is_power_of_two 3"
  unfolding is_power_of_two_def by code_simp

lemma not_is_power_of_two_big: "\<not> is_power_of_two (2 ^ 63 + 1)"
  unfolding is_power_of_two_def by code_simp

lemma replicate_3: "replicate 3 x = [x, x, x]"
  by (simp add: numeral_3_eq_3)

lemma PseudoLRU_new_4: "PseudoLRU_new 4 = Inr \<lparr>nodes = [Left, Left, Left], ways = 4\<rparr>"
  by (simp add: PseudoLRU_new_def vector_new_def vector_max_size_def is_power_of_two_4 replicate_3)

text \<open>
  C2: the constructor throws the configuration error from its body, which runs only
  after the member initialiser has built the vector of \<open>ways - 1\<close> flags. With 3 ways
  the body is reached and the configuration error is thrown; with 4 ways the engine
  is built. With \<open>2\<^sup>6\<^sup>3 + 1\<close> ways, a positive number that is not a power of two, the
  initialiser asks for more than \<^verbatim>\<open>max_size()\<close> flags and the construction ends with
  \<^verbatim>\<open>std::length_error\<close>: the check of the body is never reached.
\<close>

theorem PseudoLRU_new_builds_before_check:
  "\<not> is_power_of_two (2 ^ 63 + 1)
   \<and> PseudoLRU_new (2 ^ 63 + 1) = Inl LengthError
   \<and> PseudoLRU_new 3 = Inl (CacheReplacementException ''Number of ways must be the power of 2!'')
   \<and> PseudoLRU_new 4 = Inr \<lparr>nodes = [Left, Left, Left], ways = 4\<rparr>"
proof -
  have "PseudoLRU_new (2 ^ 63 + 1) = Inl LengthError"
    by (simp add: PseudoLRU_new_def vector_new_def vector_max_size_def)
  moreover have "PseudoLRU_new 3 = Inl (CacheReplacementException ''Number of ways must be the power of 2!'')"
    by (simp add: PseudoLRU_new_def vector_new_def vector_max_size_def not_is_power_of_two_3)
  ultimately show ?thesis
    using not_is_power_of_two_big PseudoLRU_new_4 by simp
qed

subsection \<open>The bit tree with four ways\<close>

text \<open>
  A state of an engine with four ways has three bits. From each of the eight states,
  \<^verbatim>\<open>touch(0)\<close> leaves the root and its left child pointing to the right, and the
  next \<^verbatim>\<open>update()\<close> follows them to way 2 or way 3.
\<close>

lemma touch_0_update_runs:
  "PseudoLRU_calls [Touch 0, Update] \<lparr>nodes = [Left, Left, Left], ways = 4\<rparr>
     = Some (Inr ([2], \<lparr>nodes = [Left, Right, Right], ways = 4\<rparr>))"
  "PseudoLRU_calls [Touch 0, Update] \<lparr>nodes = [Left, Right, Left], ways = 4\<rparr>
     = Some (Inr ([2], \<lparr>nodes = [Left, Right, Right], ways = 4\<rparr>))"
  "PseudoLRU_calls [Touch 0, Update] \<lparr>nodes = [Right, Left, Left], ways = 4\<rparr>
     = Some (Inr ([2], \<lparr>nodes = [Left, Right, Right], ways = 4\<rparr>))"
  "PseudoLRU_calls [Touch 0, Update] \<lparr>nodes = [Right, Right, Left], ways = 4\<rparr>
     = Some (Inr ([2], \<lparr>nodes = [Left, Right, Right], ways = 4\<rparr>))"
  "PseudoLRU_calls [Touch 0, Update] \<lparr>nodes = [Left, Left, Right], ways = 4\<rparr>
     = Some (Inr ([3], \<lparr>nodes = [Left, Right, Left], ways = 4\<rparr>))"
  "PseudoLRU_calls [Touch 0, Update] \<lparr>nodes = [Left, Right, Right], ways = 4\<rparr>
     = Some (Inr ([3], \<lparr>nodes = [Left, Right, Left], ways = 4\<rparr>))"
  "PseudoLRU_calls [Touch 0, Update] \<lparr>nodes = [Right, Left, Right], ways = 4\<rparr>
     = Some (Inr ([3], \<lparr>nodes = [Left, Right, Left], ways = 4\<rparr>))"
  "PseudoLRU_calls [Touch 0, Update] \<lparr>nodes = [Right, Right, Right], ways = 4\<rparr>
     = Some (Inr ([3], \<lparr>nodes = [Left, Right, Left], ways = 4\<rparr>))"
  by code_simp+

lemma touch_0_update_any:
  "PseudoLRU_calls [Touch 0, Update] \<lparr>nodes = [a, b, c], ways = 4\<rparr>
     = Some (Inr ([if c = Left then 2 else 3],
                  \<lparr>nodes = [Left, Right, if c = Left then Right else Left], ways = 4\<rparr>))"
  by (cases a; cases b; cases c) (simp_all add: touch_0_update_runs del: PseudoLRU_calls.simps)

text \<open>
  C3: with \<open>ways = 4\<close> all three bits start as \<open>Left\<close> and the first \<^verbatim>\<open>update()\<close>
  returns way 0; a \<^verbatim>\<open>touch(0)\<close> after it makes the next \<^verbatim>\<open>update()\<close> return way 2.
  In every state of the engine, \<^verbatim>\<open>touch(0)\<close> followed by \<^verbatim>\<open>update()\<close> returns a way
  other than 0 (way 2 or way 3, by the bit of the right subtree), so that another way
  is the target of the implicit touch of \<^verbatim>\<open>update()\<close> before way 0 can be returned
  again. On the fresh engine way 0 comes back only as the fourth result after
  \<^verbatim>\<open>touch(0)\<close>, after ways 2, 1 and 3.
\<close>

theorem PseudoLRU_four_ways:
  "PseudoLRU_new 4 = Inr \<lparr>nodes = [Left, Left, Left], ways = 4\<rparr>
   \<and> PseudoLRU_calls [Update] \<lparr>nodes = [Left, Left, Left], ways = 4\<rparr>
       = Some (Inr ([0], \<lparr>nodes = [Right, Right, Left], ways = 4\<rparr>))
   \<and> PseudoLRU_calls [Update, Touch 0, Update] \<lparr>nodes = [Left, Left, Left], ways = 4\<rparr>
       = Some (Inr ([0, 2], \<lparr>nodes = [Left, Right, Right], ways = 4\<rparr>))
   \<and> (\<forall>a b c. PseudoLRU_calls [Touch 0, Update] \<lparr>nodes = [a, b, c], ways = 4\<rparr>
         = Some (Inr ([if c = Left then 2 else 3],
                      \<lparr>nodes = [Left, Right, if c = Left then Right else Left], ways = 4\<rparr>)))
   \<and> (\<forall>a b c. \<exists>w s'. PseudoLRU_calls [Touch 0, Update] \<lparr>nodes = [a, b, c], ways = 4\<rparr>
         = Some (Inr ([w], s')) \<and> w \<noteq> 0)
   \<and> PseudoLRU_calls [Touch 0, Update] \<lparr>nodes = [Left, Left, Left], ways = 4\<rparr>
       = Some (Inr ([2], \<lparr>nodes = [Left, Right, Right], ways = 4\<rparr>))
   \<and> PseudoLRU_calls [Touch 0, Update, Update, Update, Update] \<lparr>nodes = [Left, Left, Left], ways = 4\<rparr>
       = Some (Inr ([2, 1, 3, 0], \<lparr>nodes = [Right, Right, Left], ways = 4\<rparr>))
   \<and> PseudoLRU_calls [Update, Update, Update, Update, Update] \<lparr>nodes = [Left, Left, Left], ways = 4\<rparr>
       = Some (Inr ([0, 2, 1, 3, 0], \<lparr>nodes = [Right, Right, Left], ways = 4\<rparr>))"
proof -
  have 1: "PseudoLRU_calls [Update] \<lparr>nodes = [Left, Left, Left], ways = 4\<rparr>
       = Some (Inr ([0], \<lparr>nodes = [Right, Right, Left], ways = 4\<rparr>))"
    by code_simp
  have 2: "PseudoLRU_calls [Update, Touch 0, Update] \<lparr>nodes = [Left, Left, Left], ways = 4\<rparr>
       = Some (Inr ([0, 2], \<lparr>nodes = [Left, Right, Right], ways = 4\<rparr>))"
    by code_simp
  have 3: "\<exists>w s'. PseudoLRU_calls [Touch 0, Update] \<lparr>nodes = [a, b, c], ways = 4\<rparr>
         = Some (Inr ([w], s')) \<and> w \<noteq> 0" for a b c
    unfolding touch_0_update_any by (cases c) simp_all
  have 4: "PseudoLRU_calls [Touch 0, Update, Update, Update, Update] \<lparr>nodes = [Left, Left, Left], ways = 4\<rparr>
       = Some (Inr ([2, 1, 3, 0], \<lparr>nodes = [Right, Right, Left], ways = 4\<rparr>))"
    by code_simp
  have 5: "PseudoLRU_calls [Update, Update, Update, Update, Update] \<lparr>nodes = [Left, Left, Left], ways = 4\<rparr>
       = Some (Inr ([0, 2, 1, 3, 0], \<lparr>nodes = [Right, Right, Left], ways = 4\<rparr>))"
    by code_simp
  from PseudoLRU_new_4 1 2 3 4 5 touch_0_update_any touch_0_update_runs(1) show ?thesis
    by (intro conjI allI)
qed

subsection \<open>\<^verbatim>\<open>set_to_erase\<close> on the bit tree\<close>

text \<open>
  C6: on the bit-tree engine \<^verbatim>\<open>set_to_erase\<close> throws for every argument, in range or
  not, and the bit tree at the throw is the one the call started with; a history of
  calls ends with this error at its first \<^verbatim>\<open>set_to_erase\<close>.
\<close>

theorem PseudoLRU_set_to_erase_throws:
  "PseudoLRU_set_to_erase way s =
     (Inl (CacheReplacementException ''PLRU does not support inverted access''), s)
   \<and> PseudoLRU_calls (SetToErase way # cs) s =
     Some (Inl (CacheReplacementException ''PLRU does not support inverted access''))"
  by (simp add: PseudoLRU_set_to_erase_def)

subsection \<open>The factory\<close>

lemma create_cache_replacement_LRU:
  "create_cache_replacement ''LRU'' n = Inr (LRU_object (LRU_new n))"
  by (simp add: create_cache_replacement_def)

lemma create_cache_replacement_PseudoLRU:
  "create_cache_replacement ''Pseudo-LRU'' n = map_sum id PseudoLRU_object (PseudoLRU_new n)"
  by (simp add: create_cache_replacement_def split: sum.splits)

lemma create_cache_replacement_other:
  "name \<noteq> ''LRU'' \<Longrightarrow> name \<noteq> ''Pseudo-LRU'' \<Longrightarrow>
   create_cache_replacement name n = Inl (CacheReplacementException (undefined_policy_message name))"
  by (simp add: create_cache_replacement_def)

text \<open>
  C7: the factory takes \<^verbatim>\<open>Pseudo-LRU\<close> for the bit tree, but the message of the error
  for an unknown name lists \<^verbatim>\<open>pseudo-LRU\<close>: the supported name is not in the message,
  and the name the message gives is itself rejected.
\<close>

theorem factory_message_lists_rejected_name:
  "create_cache_replacement ''FIFO'' 4
     = Inl (CacheReplacementException (undefined_policy_message ''FIFO''))
   \<and> sublist ''pseudo-LRU'' (undefined_policy_message ''FIFO'')
   \<and> \<not> sublist ''Pseudo-LRU'' (undefined_policy_message ''FIFO'')
   \<and> create_cache_replacement ''pseudo-LRU'' 4
     = Inl (CacheReplacementException (undefined_policy_message ''pseudo-LRU''))
   \<and> create_cache_replacement ''Pseudo-LRU'' 4
     = Inr (PseudoLRU_object \<lparr>nodes = [Left, Left, Left], ways = 4\<rparr>)"
proof -
  have "sublist ''pseudo-LRU'' (undefined_policy_message ''FIFO'')"
    unfolding undefined_policy_message_def by code_simp
  moreover have "\<not> sublist ''Pseudo-LRU'' (undefined_policy_message ''FIFO'')"
    unfolding undefined_policy_message_def by code_simp
  ultimately show ?thesis
    by (simp add: create_cache_replacement_def PseudoLRU_new_4)
qed

section \<open>The exact-recency engine\<close>

subsection \<open>The list and its iterators\<close>

lemma new_node_fresh: "new_node xs \<notin> fst ` set xs"
proof
  assume "new_node xs \<in> fst ` set xs"
  then have "new_node xs \<in> set (0 # map fst xs)" by simp
  then have "new_node xs \<le> Max (set (0 # map fst xs))" by (intro Max_ge) simp_all
  also have "\<dots> = fold max (map fst xs) 0" by (rule Max.set_eq_fold)
  finally show False by (simp add: new_node_def)
qed

lemma insert_before_begin: "insert_before (list_begin ys) n ys = Inr (n # ys)"
  by (cases ys) (auto simp: list_begin_def)

lemma insert_before_End: "insert_before End n ys = Inr (ys @ [n])"
  by (induction ys) auto

lemma remove_node_absent: "a \<notin> fst ` set xs \<Longrightarrow> remove_node a xs = xs"
  unfolding remove_node_def by (induction xs) auto

lemma remove_node_split:
  "a \<notin> fst ` set pre \<Longrightarrow> a \<notin> fst ` set post \<Longrightarrow> remove_node a (pre @ (a, v) # post) = pre @ post"
  using remove_node_absent [of a pre] remove_node_absent [of a post]
  by (simp add: remove_node_def)

lemma node_split:
  assumes "distinct (map fst xs)" and "(a, v) \<in> set xs"
  obtains pre post where "xs = pre @ (a, v) # post"
    and "a \<notin> fst ` set pre" and "a \<notin> fst ` set post"
proof -
  from assms(2) obtain pre post where xs: "xs = pre @ (a, v) # post"
    by (auto dest: split_list)
  with assms(1) have "a \<notin> fst ` set pre" and "a \<notin> fst ` set post"
    by auto
  with xs show thesis by (rule that)
qed

lemma list_splice_begin:
  assumes "a \<notin> fst ` set pre" and "a \<notin> fst ` set post" and "distinct (map fst (pre @ post))"
  shows "list_splice (list_begin (pre @ (a, v) # post)) (pre @ (a, v) # post) (Node a)
           = Inr ((a, v) # pre @ post)"
proof -
  let ?xs = "pre @ (a, v) # post"
  from assms have d: "distinct (map fst ?xs)" by auto
  then have m: "map_of ?xs a = Some v" by (subst map_of_eq_Some_iff) simp_all
  show ?thesis
  proof (cases pre)
    case Nil
    then show ?thesis using m by (simp add: list_splice_def list_begin_def)
  next
    case (Cons p pre')
    obtain b u where p: "p = (b, u)" by (cases p)
    with Cons assms(1) have ba: "b \<noteq> a" by auto
    have r: "remove_node a ?xs = (b, u) # pre' @ post"
      using remove_node_split [OF assms(1,2), of v] Cons p by simp
    have b: "list_begin ?xs = Node b"
      using Cons p by (simp add: list_begin_def)
    have "list_splice (list_begin ?xs) ?xs (Node a)
            = insert_before (Node b) (a, v) (remove_node a ?xs)"
      using m ba b by (simp add: list_splice_def)
    also have "\<dots> = Inr ((a, v) # (b, u) # pre' @ post)"
      unfolding r by simp
    finally show ?thesis using Cons p by simp
  qed
qed

lemma list_splice_end:
  assumes "a \<notin> fst ` set pre" and "a \<notin> fst ` set post" and "distinct (map fst (pre @ post))"
  shows "list_splice (list_end (pre @ (a, v) # post)) (pre @ (a, v) # post) (Node a)
           = Inr (pre @ post @ [(a, v)])"
proof -
  let ?xs = "pre @ (a, v) # post"
  from assms have d: "distinct (map fst ?xs)" by auto
  then have m: "map_of ?xs a = Some v" by (subst map_of_eq_Some_iff) simp_all
  show ?thesis
    using m assms(1,2)
    by (simp add: list_splice_def list_end_def remove_node_split insert_before_End)
qed


subsection \<open>One call on a state that satisfies the invariant\<close>

lemma LRU_inv_node:
  assumes "LRU_inv s" and "w < LRU.ways s"
  obtains a pre post where "lru_hash s w = Some (Node a)"
    and "lru_list s = pre @ (a, w) # post"
    and "a \<notin> fst ` set pre" and "a \<notin> fst ` set post"
    and "w \<notin> snd ` set pre" and "w \<notin> snd ` set post"
proof -
  from assms obtain a where h: "lru_hash s w = Some (Node a)" and m: "(a, w) \<in> set (lru_list s)"
    by (auto simp: LRU_inv_def)
  from assms(1) have d: "distinct (map fst (lru_list s))" and dv: "distinct (map snd (lru_list s))"
    by (simp_all add: LRU_inv_def lru_order_def)
  from d m obtain pre post where l: "lru_list s = pre @ (a, w) # post"
    and "a \<notin> fst ` set pre" and "a \<notin> fst ` set post"
    by (rule node_split)
  moreover from dv l have "w \<notin> snd ` set pre" and "w \<notin> snd ` set post"
    by auto
  ultimately show thesis using h by (intro that)
qed

lemma removeAll_absent: "w \<notin> snd ` set xs \<Longrightarrow> removeAll w (map snd xs) = map snd xs"
  by (induction xs) auto

lemma LRU_inv_moved:
  assumes inv: "LRU_inv s" and l: "lru_list s = pre @ (a, w) # post"
    and l': "set l' = set (lru_list s)" "distinct (map fst l')" "distinct (map snd l')"
  shows "LRU_inv (s\<lparr>lru_list := l'\<rparr>)"
proof -
  have "set (map snd l') = set (map snd (lru_list s))"
    using l'(1) by simp
  then show ?thesis
    using inv l' by (simp add: LRU_inv_def lru_order_def)
qed

lemma LRU_touch_sim:
  assumes inv: "LRU_inv s" and w: "w < LRU.ways s"
  shows "\<exists>s'. LRU_touch w s = Inr s' \<and> LRU_inv s' \<and> LRU.ways s' = LRU.ways s
           \<and> lru_order s' = w # removeAll w (lru_order s)"
proof -
  from inv w obtain a pre post where h: "lru_hash s w = Some (Node a)"
    and l: "lru_list s = pre @ (a, w) # post"
    and a: "a \<notin> fst ` set pre" "a \<notin> fst ` set post"
    and v: "w \<notin> snd ` set pre" "w \<notin> snd ` set post"
    by (rule LRU_inv_node)
  from inv l have d: "distinct (map fst (pre @ post))" and dv: "distinct (map snd (pre @ post))"
    by (simp_all add: LRU_inv_def lru_order_def)
  let ?l = "(a, w) # pre @ post"
  let ?s = "s\<lparr>lru_list := ?l\<rparr>"
  have t: "LRU_touch w s = Inr ?s"
    using h list_splice_begin [OF a d, of w] by (simp add: LRU_touch_def l)
  have "LRU_inv ?s"
    using inv l
  proof (rule LRU_inv_moved)
    show "set ?l = set (lru_list s)" by (auto simp: l)
    show "distinct (map fst ?l)" using d a by auto
    show "distinct (map snd ?l)" using dv v by auto
  qed
  moreover have "lru_order ?s = w # removeAll w (lru_order s)"
    using removeAll_absent [OF v(1)] removeAll_absent [OF v(2)]
    by (simp add: lru_order_def l)
  ultimately show ?thesis using t by simp
qed

lemma LRU_set_to_erase_sim:
  assumes inv: "LRU_inv s" and w: "w < LRU.ways s"
  shows "\<exists>s'. LRU_set_to_erase w s = Inr s' \<and> LRU_inv s' \<and> LRU.ways s' = LRU.ways s
           \<and> lru_order s' = removeAll w (lru_order s) @ [w]"
proof -
  from inv w obtain a pre post where h: "lru_hash s w = Some (Node a)"
    and l: "lru_list s = pre @ (a, w) # post"
    and a: "a \<notin> fst ` set pre" "a \<notin> fst ` set post"
    and v: "w \<notin> snd ` set pre" "w \<notin> snd ` set post"
    by (rule LRU_inv_node)
  from inv l have d: "distinct (map fst (pre @ post))" and dv: "distinct (map snd (pre @ post))"
    by (simp_all add: LRU_inv_def lru_order_def)
  let ?l = "pre @ post @ [(a, w)]"
  let ?s = "s\<lparr>lru_list := ?l\<rparr>"
  have t: "LRU_set_to_erase w s = Inr ?s"
    using h list_splice_end [OF a d, of w] by (simp add: LRU_set_to_erase_def l)
  have "LRU_inv ?s"
    using inv l
  proof (rule LRU_inv_moved)
    show "set ?l = set (lru_list s)" by (auto simp: l)
    show "distinct (map fst ?l)" using d a by auto
    show "distinct (map snd ?l)" using dv v by auto
  qed
  moreover have "lru_order ?s = removeAll w (lru_order s) @ [w]"
    using removeAll_absent [OF v(1)] removeAll_absent [OF v(2)]
    by (simp add: lru_order_def l)
  ultimately show ?thesis using t by simp
qed

lemma LRU_update_sim:
  assumes inv: "LRU_inv s" and pos: "0 < LRU.ways s"
  shows "\<exists>s'. LRU_update s = Inr (last (lru_order s), s') \<and> LRU_inv s' \<and> LRU.ways s' = LRU.ways s
           \<and> lru_order s' = last (lru_order s) # butlast (lru_order s)"
proof -
  from inv pos have "0 \<in> set (lru_order s)" by (simp add: LRU_inv_def)
  then have ne: "lru_list s \<noteq> []" by (auto simp: lru_order_def)
  then obtain b w where l: "lru_list s = butlast (lru_list s) @ [(b, w)]"
    by (metis append_butlast_last_id surj_pair)
  define rest where "rest = butlast (lru_list s)"
  define a where "a = new_node rest"
  have l: "lru_list s = rest @ [(b, w)]" using l by (simp add: rest_def)
  have fresh: "a \<notin> fst ` set rest" unfolding a_def by (rule new_node_fresh)
  have lw: "last (lru_order s) = w" by (simp add: lru_order_def l)
  from inv l have d: "distinct (map fst rest)" "b \<notin> fst ` set rest"
    and dv: "distinct (map snd rest)" "w \<notin> snd ` set rest"
    by (auto simp: LRU_inv_def lru_order_def)
  let ?l = "(a, w) # rest"
  let ?s = "s\<lparr>lru_list := ?l, lru_hash := (lru_hash s)(w \<mapsto> Node a)\<rparr>"
  have u: "LRU_update s = Inr (w, ?s)"
    using ne l
    by (simp add: LRU_update_def list_back_def list_pop_back_def list_insert_def
        insert_before_begin a_def Let_def)
  have ww: "w < LRU.ways s"
    using inv l by (auto simp: LRU_inv_def lru_order_def)
  have "LRU_inv ?s"
    unfolding LRU_inv_def
  proof (intro conjI allI impI)
    show "distinct (lru_order ?s)" using dv by (auto simp: lru_order_def)
    show "set (lru_order ?s) = {v. v < LRU.ways ?s}"
      using inv l by (auto simp: LRU_inv_def lru_order_def)
    show "distinct (map fst (lru_list ?s))" using d fresh by auto
    show "dom (lru_hash ?s) = {v. v < LRU.ways ?s}"
      using inv ww by (auto simp: LRU_inv_def)
  next
    fix v assume "v < LRU.ways ?s"
    then have v: "v < LRU.ways s" by simp
    show "\<exists>c. lru_hash ?s v = Some (Node c) \<and> (c, v) \<in> set (lru_list ?s)"
    proof (cases "v = w")
      case True
      then show ?thesis by simp
    next
      case False
      from inv v obtain c where "lru_hash s v = Some (Node c)" and "(c, v) \<in> set (lru_list s)"
        by (auto simp: LRU_inv_def)
      with False show ?thesis by (auto simp: l)
    qed
  qed
  moreover have "lru_order ?s = last (lru_order s) # butlast (lru_order s)"
    by (simp add: lru_order_def l)
  ultimately show ?thesis using u lw by simp
qed

subsection \<open>The constructor\<close>

lemma unat_word_Suc: "i < (n::size_t) \<Longrightarrow> unat (i + 1) = Suc (unat i)"
proof -
  assume "i < n"
  then have "i \<noteq> - 1" by auto
  then have "1 + i \<noteq> 0" by (simp add: eq_neg_iff_add_eq_0 add.commute)
  then show ?thesis by (simp add: unatSuc add.commute)
qed

lemma word_less_Suc: "i < (n::size_t) \<Longrightarrow> w < i + 1 \<longleftrightarrow> w < i \<or> w = i"
  by (auto simp: word_less_nat_alt unat_word_Suc word_unat_eq_iff)

lemma ways_upt_Suc:
  "i < (n::size_t) \<Longrightarrow> map of_nat [0..<unat (i + 1)] = map of_nat [0..<unat i] @ [i]"
  by (simp add: unat_word_Suc)

lemma of_nat_below: "k < unat (n::size_t) \<Longrightarrow> unat (of_nat k :: size_t) = k"
  by (rule le_unat_uoi [of _ n]) simp

lemma set_ways_upt: "set (map of_nat [0..<unat n]) = {w::size_t. w < n}"
proof (intro set_eqI iffI)
  fix w :: size_t
  assume "w \<in> set (map of_nat [0..<unat n])"
  then obtain k where "k < unat n" and "w = of_nat k" by auto
  then show "w \<in> {w. w < n}" by (simp add: word_less_nat_alt of_nat_below)
next
  fix w :: size_t
  assume "w \<in> {w. w < n}"
  then have "unat w < unat n" by (simp add: word_less_nat_alt)
  then have "(of_nat (unat w) :: size_t) \<in> of_nat ` {0..<unat n}" by (intro imageI) simp
  then show "w \<in> set (map of_nat [0..<unat n])" by simp
qed

lemma distinct_ways_upt: "distinct (map of_nat [0..<unat (n::size_t)] :: size_t list)"
proof -
  have "inj_on (of_nat :: nat \<Rightarrow> size_t) {0..<unat n}"
    by (rule inj_on_inverseI [where g = unat]) (rule of_nat_below [of _ n], simp)
  then show ?thesis by (simp add: distinct_map)
qed

lemma LRU_ctor_body_inv:
  assumes "LRU_ctor_inv n i s" and "i < n"
  shows "LRU_ctor_inv n (i + 1) (LRU_ctor_body i s)"
proof -
  let ?a = "new_node (lru_list s)"
  have none: "lru_hash s i = None" using assms(1) by (simp add: LRU_ctor_inv_def)
  have body: "LRU_ctor_body i s
      = s\<lparr>lru_list := (?a, i) # lru_list s, lru_hash := (lru_hash s)(i \<mapsto> Node ?a)\<rparr>"
    using none
    by (simp add: LRU_ctor_body_def list_push_front_def list_begin_def hash_emplace_def Let_def)
  have fresh: "?a \<notin> fst ` set (lru_list s)" by (rule new_node_fresh)
  show ?thesis
    unfolding body LRU_ctor_inv_def
  proof (intro conjI allI impI)
    fix w assume "w < i + 1"
    then consider "w < i" | "w = i" using word_less_Suc [OF assms(2)] by auto
    then show "\<exists>a. lru_hash (s\<lparr>lru_list := (?a, i) # lru_list s, lru_hash := (lru_hash s)(i \<mapsto> Node ?a)\<rparr>) w = Some (Node a)
        \<and> (a, w) \<in> set (lru_list (s\<lparr>lru_list := (?a, i) # lru_list s, lru_hash := (lru_hash s)(i \<mapsto> Node ?a)\<rparr>))"
    proof cases
      case 1
      with assms(1) obtain a where "lru_hash s w = Some (Node a)" and "(a, w) \<in> set (lru_list s)"
        by (auto simp: LRU_ctor_inv_def)
      with 1 show ?thesis by auto
    next
      case 2
      then show ?thesis by simp
    qed
  next
    fix w assume "\<not> w < i + 1"
    then have "\<not> w < i" and "w \<noteq> i" using word_less_Suc [OF assms(2)] by auto
    with assms(1) show "lru_hash (s\<lparr>lru_list := (?a, i) # lru_list s, lru_hash := (lru_hash s)(i \<mapsto> Node ?a)\<rparr>) w = None"
      by (simp add: LRU_ctor_inv_def)
  qed (use assms fresh in \<open>auto simp: LRU_ctor_inv_def lru_order_def unat_word_Suc\<close>)
qed

lemma LRU_ctor_loop_inv:
  "LRU_ctor_inv n i s \<Longrightarrow> i \<le> n \<Longrightarrow> LRU_ctor_inv n n (LRU_ctor_loop n i s)"
proof (induction n i s rule: LRU_ctor_loop.induct)
  case (1 n i s)
  show ?case
  proof (cases "i < n")
    case True
    then have "i + 1 \<le> n" by (rule inc_le)
    with "1.IH" [OF True LRU_ctor_body_inv [OF "1.prems"(1) True]] True
    show ?thesis by (simp add: LRU_ctor_loop.simps [of n i])
  next
    case False
    with "1.prems" have "i = n" by simp
    with "1.prems" show ?thesis by (simp add: LRU_ctor_loop.simps [of n n])
  qed
qed

lemma LRU_new_inv:
  "LRU_inv (LRU_new n) \<and> LRU.ways (LRU_new n) = n
   \<and> lru_order (LRU_new n) = rev (map of_nat [0..<unat n])"
proof -
  have "LRU_ctor_inv n 0 \<lparr>lru_list = [], ways = n, lru_hash = Map.empty\<rparr>"
    by (simp add: LRU_ctor_inv_def lru_order_def)
  then have c: "LRU_ctor_inv n n (LRU_new n)"
    unfolding LRU_new_def by (rule LRU_ctor_loop_inv) simp
  then have o: "lru_order (LRU_new n) = rev (map of_nat [0..<unat n])"
    and w: "LRU.ways (LRU_new n) = n"
    by (simp_all add: LRU_ctor_inv_def)
  have "LRU_inv (LRU_new n)"
    unfolding LRU_inv_def o w
  proof (intro conjI)
    show "distinct (rev (map of_nat [0..<unat n]) :: size_t list)"
      using distinct_ways_upt [of n] by simp
    show "set (rev (map of_nat [0..<unat n])) = {w. w < n}"
      using set_ways_upt [of n] by simp
    show "distinct (map fst (lru_list (LRU_new n)))"
      using c by (simp add: LRU_ctor_inv_def)
    show "dom (lru_hash (LRU_new n)) = {w. w < n}"
      using c by (fastforce simp: LRU_ctor_inv_def dom_def)
    show "\<forall>w<n. \<exists>a. lru_hash (LRU_new n) w = Some (Node a) \<and> (a, w) \<in> set (lru_list (LRU_new n))"
      using c by (simp add: LRU_ctor_inv_def)
  qed
  with o w show ?thesis by simp
qed

subsection \<open>Histories of calls\<close>

lemma LRU_calls_append:
  "LRU_calls (cs @ ds) s =
     (case LRU_calls cs s of
        Inl e \<Rightarrow> Inl e
      | Inr (ws, s') \<Rightarrow>
          (case LRU_calls ds s' of Inl e \<Rightarrow> Inl e | Inr (ws', s'') \<Rightarrow> Inr (ws @ ws', s'')))"
  by (induction cs s rule: LRU_calls.induct) (auto split: sum.splits prod.splits)

lemma LRU_calls_inv:
  "LRU_inv s \<Longrightarrow> list_all (call_ok (LRU.ways s)) cs \<Longrightarrow>
   \<exists>ws s'. LRU_calls cs s = Inr (ws, s') \<and> LRU_inv s' \<and> LRU.ways s' = LRU.ways s"
proof (induction cs arbitrary: s)
  case Nil
  then show ?case by simp
next
  case (Cons c cs)
  from Cons.prems have ok: "call_ok (LRU.ways s) c" and rest: "list_all (call_ok (LRU.ways s)) cs"
    by simp_all
  show ?case
  proof (cases c)
    case (Touch w)
    with ok have "w < LRU.ways s" by (simp add: call_ok_def)
    with Cons.prems(1) obtain s1 where 1: "LRU_touch w s = Inr s1" "LRU_inv s1" "LRU.ways s1 = LRU.ways s"
      using LRU_touch_sim by blast
    with Cons.IH [of s1] rest Touch show ?thesis by auto
  next
    case (SetToErase w)
    with ok have "w < LRU.ways s" by (simp add: call_ok_def)
    with Cons.prems(1) obtain s1 where 1: "LRU_set_to_erase w s = Inr s1" "LRU_inv s1" "LRU.ways s1 = LRU.ways s"
      using LRU_set_to_erase_sim by blast
    with Cons.IH [of s1] rest SetToErase show ?thesis by auto
  next
    case Update
    with ok have "0 < LRU.ways s" by (simp add: call_ok_def)
    with Cons.prems(1) obtain s1 where 1: "LRU_update s = Inr (last (lru_order s), s1)" "LRU_inv s1" "LRU.ways s1 = LRU.ways s"
      using LRU_update_sim by blast
    with Cons.IH [of s1] rest Update show ?thesis by auto
  qed
qed

lemma LRU_reachable:
  assumes "list_all (call_ok n) cs"
  obtains ws s where "LRU_calls cs (LRU_new n) = Inr (ws, s)" and "LRU_inv s" and "LRU.ways s = n"
  using LRU_calls_inv [of "LRU_new n" cs] LRU_new_inv [of n] assms by auto

text \<open>The definitions that evaluate a history on a concrete engine.\<close>

lemmas lru_eval = LRU_new_def LRU_ctor_loop.simps LRU_ctor_body_def list_push_front_def
  new_node_def list_begin_def list_end_def hash_emplace_def LRU_touch_def LRU_set_to_erase_def
  LRU_update_def list_splice_def remove_node_def list_back_def list_pop_back_def list_insert_def
  Let_def

text \<open>
  C8: after the construction and after every history of \<^verbatim>\<open>touch\<close>, \<^verbatim>\<open>set_to_erase\<close>
  and \<^verbatim>\<open>update\<close> calls that respects the contract (ways below \<open>ways\<close>; \<^verbatim>\<open>update\<close>
  only with at least one way), every call returns and the state satisfies the
  invariant: the sequence holds each way below \<open>ways\<close> exactly once, and the mapping
  sends each of them to the node of the sequence that holds it.
\<close>

theorem LRU_invariant:
  "list_all (call_ok n) cs \<Longrightarrow>
   \<exists>ws s. LRU_calls cs (LRU_new n) = Inr (ws, s) \<and> LRU.ways s = n \<and> LRU_inv s"
  using LRU_calls_inv [of "LRU_new n" cs] LRU_new_inv [of n] by auto

theorem LRU_invariant_witness:
  "list_all (call_ok 3) [Touch 1, Update, SetToErase 2, Update]
   \<and> (\<exists>ws s. LRU_calls [Touch 1, Update, SetToErase 2, Update] (LRU_new 3) = Inr (ws, s)
          \<and> LRU.ways s = 3 \<and> LRU_inv s)
   \<and> (\<exists>s. LRU_calls [Touch 1, Update, SetToErase 2, Update] (LRU_new 3) = Inr ([0, 2], s))"
proof -
  have h: "list_all (call_ok 3) [Touch 1, Update, SetToErase 2, Update]"
    by (simp add: call_ok_def)
  have e: "\<exists>s. LRU_calls [Touch 1, Update, SetToErase 2, Update] (LRU_new 3) = Inr ([0, 2], s)"
    by (simp add: lru_eval)
  from h LRU_invariant [OF h] e show ?thesis by (intro conjI)
qed

text \<open>
  C5: after any history of calls, \<^verbatim>\<open>set_to_erase(w)\<close> followed at once by
  \<^verbatim>\<open>update()\<close> returns \<open>w\<close>.
\<close>

theorem LRU_set_to_erase_then_update:
  assumes "list_all (call_ok n) cs" and "w < n"
  shows "\<exists>ws s. LRU_calls (cs @ [SetToErase w, Update]) (LRU_new n) = Inr (ws @ [w], s)"
proof -
  from assms(1) obtain ws s where c: "LRU_calls cs (LRU_new n) = Inr (ws, s)"
    and inv: "LRU_inv s" and n: "LRU.ways s = n"
    by (rule LRU_reachable)
  from inv assms(2) n obtain s1 where e: "LRU_set_to_erase w s = Inr s1" and inv1: "LRU_inv s1"
    and n1: "LRU.ways s1 = n" and o1: "lru_order s1 = removeAll w (lru_order s) @ [w]"
    using LRU_set_to_erase_sim [of s w] by auto
  from assms(2) have "0 < n" by (auto simp: word_gt_0)
  with inv1 n1 obtain s2 where "LRU_update s1 = Inr (last (lru_order s1), s2)"
    using LRU_update_sim [of s1] by auto
  with o1 have "LRU_update s1 = Inr (w, s2)" by simp
  with c e show ?thesis by (simp add: LRU_calls_append)
qed

theorem LRU_set_to_erase_then_update_witness:
  "list_all (call_ok 3) [Touch 1, Update, Touch 2] \<and> (2::size_t) < 3
   \<and> (\<exists>ws s. LRU_calls ([Touch 1, Update, Touch 2] @ [SetToErase 2, Update]) (LRU_new 3)
          = Inr (ws @ [2], s))
   \<and> (\<exists>s. LRU_calls ([Touch 1, Update, Touch 2] @ [SetToErase 2, Update]) (LRU_new 3)
          = Inr ([0, 2], s))"
proof -
  have h: "list_all (call_ok 3) [Touch 1, Update, Touch 2]" and w: "(2::size_t) < 3"
    by (simp_all add: call_ok_def)
  have e: "\<exists>s. LRU_calls ([Touch 1, Update, Touch 2] @ [SetToErase 2, Update]) (LRU_new 3)
          = Inr ([0, 2], s)"
    by (simp add: lru_eval)
  from h w LRU_set_to_erase_then_update [OF h w] e show ?thesis by (intro conjI)
qed

text \<open>
  C9: with at least two ways, after any history of calls, \<^verbatim>\<open>set_to_erase(w)\<close>
  followed by \<^verbatim>\<open>touch(w)\<close> and then \<^verbatim>\<open>update()\<close> returns a way other than \<open>w\<close>.
\<close>

theorem LRU_set_to_erase_not_sticky:
  assumes "list_all (call_ok n) cs" and "2 \<le> n" and "w < n"
  shows "\<exists>ws v s. LRU_calls (cs @ [SetToErase w, Touch w, Update]) (LRU_new n) = Inr (ws @ [v], s)
           \<and> v \<noteq> w"
proof -
  from assms(1) obtain ws s where c: "LRU_calls cs (LRU_new n) = Inr (ws, s)"
    and inv: "LRU_inv s" and n: "LRU.ways s = n"
    by (rule LRU_reachable)
  from inv assms(3) n obtain s1 where e: "LRU_set_to_erase w s = Inr s1" and inv1: "LRU_inv s1"
    and n1: "LRU.ways s1 = n"
    using LRU_set_to_erase_sim [of s w] by auto
  from inv1 assms(3) n1 obtain s2 where t: "LRU_touch w s1 = Inr s2" and inv2: "LRU_inv s2"
    and n2: "LRU.ways s2 = n" and o2: "lru_order s2 = w # removeAll w (lru_order s1)"
    using LRU_touch_sim [of s1 w] by auto
  from assms(3) have "0 < n" by (auto simp: word_gt_0)
  with inv2 n2 obtain s3 where u: "LRU_update s2 = Inr (last (lru_order s2), s3)"
    using LRU_update_sim [of s2] by auto
  from assms(2) have "(0::size_t) < n" and "(1::size_t) < n"
    by (simp_all add: word_less_nat_alt word_le_nat_alt)
  with inv2 n2 have zero: "0 \<in> set (lru_order s2)" and one: "1 \<in> set (lru_order s2)"
    by (simp_all add: LRU_inv_def)
  have "\<exists>v. v \<noteq> w \<and> v \<in> set (lru_order s2)"
  proof (cases "w = 0")
    case True
    then have "1 \<noteq> w" by simp
    with one show ?thesis by blast
  next
    case False
    then have "0 \<noteq> w" by simp
    with zero show ?thesis by blast
  qed
  then obtain v where "v \<noteq> w" and "v \<in> set (lru_order s2)"
    by blast
  then have "v \<in> set (removeAll w (lru_order s1))"
    by (simp add: o2)
  then have "removeAll w (lru_order s1) \<noteq> []"
    by (auto simp del: set_removeAll)
  then have "last (lru_order s2) = last (removeAll w (lru_order s1))"
    and "last (removeAll w (lru_order s1)) \<in> set (removeAll w (lru_order s1))"
    by (simp_all add: o2 del: set_removeAll)
  then have "last (lru_order s2) \<noteq> w" by auto
  with c e t u show ?thesis by (simp add: LRU_calls_append)
qed


theorem LRU_set_to_erase_not_sticky_witness:
  "list_all (call_ok 2) [Update] \<and> (2::size_t) \<le> 2 \<and> (1::size_t) < 2
   \<and> (\<exists>ws v s. LRU_calls ([Update] @ [SetToErase 1, Touch 1, Update]) (LRU_new 2)
          = Inr (ws @ [v], s) \<and> v \<noteq> 1)
   \<and> (\<exists>s. LRU_calls ([Update] @ [SetToErase 1, Touch 1, Update]) (LRU_new 2)
          = Inr ([0, 0], s))"
proof -
  have h: "list_all (call_ok 2) [Update]" and n: "(2::size_t) \<le> 2" and w: "(1::size_t) < 2"
    by (simp_all add: call_ok_def)
  have e: "\<exists>s. LRU_calls ([Update] @ [SetToErase 1, Touch 1, Update]) (LRU_new 2)
          = Inr ([0, 0], s)"
    by (simp add: lru_eval)
  from h n w LRU_set_to_erase_not_sticky [OF h n w] e show ?thesis by (intro conjI)
qed

subsection \<open>Updates in a row\<close>

lemma LRU_inv_nonempty: "LRU_inv s \<Longrightarrow> lru_order s \<noteq> [] \<Longrightarrow> 0 < LRU.ways s"
proof -
  assume inv: "LRU_inv s" and "lru_order s \<noteq> []"
  then obtain w where "w \<in> set (lru_order s)" by (cases "lru_order s") auto
  with inv have "w < LRU.ways s" by (auto simp: LRU_inv_def)
  then show ?thesis by (auto simp: word_gt_0)
qed

lemma LRU_updates_rotate:
  "LRU_inv s \<Longrightarrow> lru_order s = xs @ rev ys \<Longrightarrow>
   \<exists>s'. LRU_calls (replicate (length ys) Update) s = Inr (ys, s')
        \<and> LRU_inv s' \<and> LRU.ways s' = LRU.ways s \<and> lru_order s' = rev ys @ xs"
proof (induction ys arbitrary: s xs)
  case Nil
  then show ?case by simp
next
  case (Cons b ys)
  from Cons.prems have "0 < LRU.ways s" by (intro LRU_inv_nonempty) simp_all
  with Cons.prems(1) obtain s1 where u: "LRU_update s = Inr (last (lru_order s), s1)"
    and inv1: "LRU_inv s1" and n1: "LRU.ways s1 = LRU.ways s"
    and o1: "lru_order s1 = last (lru_order s) # butlast (lru_order s)"
    using LRU_update_sim [of s] by auto
  from Cons.prems(2) have "last (lru_order s) = b" and "butlast (lru_order s) = xs @ rev ys"
    by (simp_all add: butlast_append)
  with u o1 have u': "LRU_update s = Inr (b, s1)" and o1': "lru_order s1 = (b # xs) @ rev ys"
    by simp_all
  from Cons.IH [OF inv1 o1'] n1 u' show ?case by auto
qed

text \<open>
  C4: on a fresh engine, \<open>ways\<close> calls of \<^verbatim>\<open>update()\<close> in a row return the ways
  \<open>0, 1, \<dots>, ways - 1\<close> in this order: each way below \<open>ways\<close> exactly once.
\<close>

theorem LRU_fresh_updates:
  "\<exists>s. LRU_calls (replicate (unat n) Update) (LRU_new n) = Inr (map of_nat [0..<unat n], s)
        \<and> distinct (map of_nat [0..<unat n] :: size_t list)
        \<and> set (map of_nat [0..<unat n]) = {w. w < n}"
proof -
  have "lru_order (LRU_new n) = [] @ rev (map of_nat [0..<unat n])"
    using LRU_new_inv [of n] by simp
  with LRU_new_inv [of n]
  have "\<exists>s'. LRU_calls (replicate (length (map of_nat [0..<unat n] :: size_t list)) Update) (LRU_new n)
          = Inr (map of_nat [0..<unat n], s')
        \<and> LRU_inv s' \<and> LRU.ways s' = LRU.ways (LRU_new n)
        \<and> lru_order s' = rev (map of_nat [0..<unat n]) @ []"
    by (intro LRU_updates_rotate) simp_all
  then show ?thesis
    using distinct_ways_upt [of n] set_ways_upt [of n] by auto
qed

subsection \<open>Touches in a row\<close>

lemma filter_removeAll: "filter P (removeAll t xs) = filter (\<lambda>v. v \<noteq> t \<and> P v) xs"
  by (induction xs) auto

lemma LRU_touches_order:
  "LRU_inv s \<Longrightarrow> list_all (\<lambda>t. t < LRU.ways s) ts \<Longrightarrow>
   \<exists>s'. LRU_calls (map Touch ts) s = Inr ([], s') \<and> LRU_inv s' \<and> LRU.ways s' = LRU.ways s
        \<and> lru_order s' = rev (remdups ts) @ filter (\<lambda>v. v \<notin> set ts) (lru_order s)"
proof (induction ts arbitrary: s)
  case Nil
  then show ?case by simp
next
  case (Cons t ts)
  from Cons.prems have t: "t < LRU.ways s" and rest: "list_all (\<lambda>t. t < LRU.ways s) ts"
    by simp_all
  from Cons.prems(1) t obtain s1 where t1: "LRU_touch t s = Inr s1" and inv1: "LRU_inv s1"
    and n1: "LRU.ways s1 = LRU.ways s" and o1: "lru_order s1 = t # removeAll t (lru_order s)"
    using LRU_touch_sim [of s t] by auto
  from Cons.IH [OF inv1] rest n1 obtain s' where c: "LRU_calls (map Touch ts) s1 = Inr ([], s')"
    and inv': "LRU_inv s'" and n': "LRU.ways s' = LRU.ways s"
    and o': "lru_order s' = rev (remdups ts) @ filter (\<lambda>v. v \<notin> set ts) (lru_order s1)"
    by auto
  have f: "filter (\<lambda>v. v \<notin> set ts) (removeAll t (lru_order s))
         = filter (\<lambda>v. v \<notin> set (t # ts)) (lru_order s)"
    by (simp add: filter_removeAll)
  have "lru_order s' = rev (remdups (t # ts)) @ filter (\<lambda>v. v \<notin> set (t # ts)) (lru_order s)"
    unfolding o' o1 using f by simp
  with t1 c inv' n' show ?case by simp
qed

lemma hd_remdups_split:
  "ts \<noteq> [] \<Longrightarrow>
   \<exists>pre post. ts = pre @ hd (remdups ts) # post \<and> hd (remdups ts) \<notin> set post
     \<and> (\<forall>v \<in> set ts. v \<noteq> hd (remdups ts) \<longrightarrow> v \<in> set post)"
proof (induction ts)
  case Nil
  then show ?case by simp
next
  case (Cons t ts)
  show ?case
  proof (cases "t \<in> set ts")
    case True
    then have ne: "ts \<noteq> []" by auto
    from Cons.IH [OF ne] obtain pre post where "ts = pre @ hd (remdups ts) # post"
      and "hd (remdups ts) \<notin> set post"
      and "\<forall>v \<in> set ts. v \<noteq> hd (remdups ts) \<longrightarrow> v \<in> set post"
      by blast
    with True have "t # ts = (t # pre) @ hd (remdups (t # ts)) # post
      \<and> hd (remdups (t # ts)) \<notin> set post
      \<and> (\<forall>v \<in> set (t # ts). v \<noteq> hd (remdups (t # ts)) \<longrightarrow> v \<in> set post)"
      by auto
    then show ?thesis by blast
  next
    case False
    then have "t # ts = [] @ hd (remdups (t # ts)) # ts
      \<and> hd (remdups (t # ts)) \<notin> set ts
      \<and> (\<forall>v \<in> set (t # ts). v \<noteq> hd (remdups (t # ts)) \<longrightarrow> v \<in> set ts)"
      by auto
    then show ?thesis by blast
  qed
qed

lemma sorted_ways_upt: "sorted (map of_nat [0..<unat (n::size_t)] :: size_t list)"
proof -
  have "sorted_wrt (\<lambda>x y. (of_nat x :: size_t) \<le> of_nat y) [0..<unat n]"
    by (rule sorted_wrt_mono_rel [where P = "(<)"])
       (auto simp: word_le_nat_alt of_nat_below [of _ n])
  then show ?thesis by (simp add: sorted_map)
qed

lemma hd_filter_sorted:
  assumes "sorted xs" and "v \<in> set xs" and "P v"
  shows "hd (filter P xs) \<le> (v::size_t)" and "P (hd (filter P xs))" and "hd (filter P xs) \<in> set xs"
proof -
  from assms have ne: "filter P xs \<noteq> []" by (auto simp: filter_empty_conv)
  then have m: "hd (filter P xs) \<in> set (filter P xs)" by (rule hd_in_set)
  then show "P (hd (filter P xs))" and "hd (filter P xs) \<in> set xs" by auto
  from assms(1) have "sorted (filter P xs)" by (rule sorted_wrt_filter)
  moreover from assms have "v \<in> set (filter P xs)" by simp
  ultimately show "hd (filter P xs) \<le> v"
    using ne by (cases "filter P xs") auto
qed

text \<open>
  C1: on a fresh engine with at least one way, after any sequence of \<^verbatim>\<open>touch\<close> calls
  with ways below \<open>ways\<close>, all calls return and the next \<^verbatim>\<open>update()\<close> returns the
  least recently touched way: the smallest never-touched way when there is one,
  otherwise the way whose last touch comes before the last touch of every other way.
\<close>

theorem LRU_update_after_touches:
  assumes "0 < n" and "list_all (\<lambda>t. t < n) ts"
  shows "\<exists>w s. LRU_calls (map Touch ts @ [Update]) (LRU_new n) = Inr ([w], s)
           \<and> least_recently_touched n ts w"
proof -
  let ?W = "map of_nat [0..<unat n] :: size_t list"
  let ?U = "filter (\<lambda>v. v \<notin> set ts) ?W"
  from LRU_new_inv [of n] have inv0: "LRU_inv (LRU_new n)" and n0: "LRU.ways (LRU_new n) = n"
    and o0: "lru_order (LRU_new n) = rev ?W"
    by simp_all
  from LRU_touches_order [OF inv0, of ts] assms(2) n0 o0
  obtain s1 where c: "LRU_calls (map Touch ts) (LRU_new n) = Inr ([], s1)"
    and inv1: "LRU_inv s1" and n1: "LRU.ways s1 = n"
    and o1: "lru_order s1 = rev (remdups ts) @ rev ?U"
    by (auto simp: rev_filter)
  from inv1 n1 assms(1) obtain s2 where u: "LRU_update s1 = Inr (last (lru_order s1), s2)"
    using LRU_update_sim [of s1] by auto
  let ?w = "last (lru_order s1)"
  from c u have r: "LRU_calls (map Touch ts @ [Update]) (LRU_new n) = Inr ([?w], s2)"
    by (simp add: LRU_calls_append)
  have W: "set ?W = {w. w < n}" by (rule set_ways_upt)
  have "least_recently_touched n ts ?w"
  proof (cases "\<exists>v. v < n \<and> v \<notin> set ts")
    case True
    then obtain v where v: "v \<in> set ?W" "v \<notin> set ts" using W by auto
    then have ne: "?U \<noteq> []" by (auto simp: filter_empty_conv)
    then have w: "?w = hd ?U" by (simp add: o1 last_rev)
    have "hd ?U \<in> set ?W" and "hd ?U \<notin> set ts"
      using hd_filter_sorted(2,3) [OF sorted_ways_upt v(1), of "\<lambda>v. v \<notin> set ts"] v(2)
      by simp_all
    moreover have "hd ?U \<le> v'" if "v' < n" and "v' \<notin> set ts" for v'
      using hd_filter_sorted(1) [OF sorted_ways_upt, of v' n "\<lambda>v. v \<notin> set ts"] that W
      by auto
    ultimately show ?thesis
      using True W unfolding least_recently_touched_def w by auto
  next
    case False
    then have all: "v \<in> set ts" if "v < n" for v using that by auto
    then have U: "?U = []" using W by (auto simp: filter_empty_conv)
    from all [OF assms(1)] have ne: "ts \<noteq> []" by auto
    then have w: "?w = hd (remdups ts)" by (simp add: o1 U last_rev)
    from ne have "hd (remdups ts) \<in> set ts"
      by (metis hd_in_set remdups_eq_nil_iff set_remdups)
    with assms(2) have wn: "hd (remdups ts) < n" by (auto simp: list_all_iff)
    from hd_remdups_split [OF ne] obtain pre post where "ts = pre @ hd (remdups ts) # post"
      and "hd (remdups ts) \<notin> set post"
      and "\<forall>v \<in> set ts. v \<noteq> hd (remdups ts) \<longrightarrow> v \<in> set post"
      by blast
    with all have "\<exists>pre post. ts = pre @ hd (remdups ts) # post \<and> hd (remdups ts) \<notin> set post
        \<and> (\<forall>v. v < n \<and> v \<noteq> hd (remdups ts) \<longrightarrow> v \<in> set post)"
      by blast
    with False wn show ?thesis
      unfolding least_recently_touched_def w by simp
  qed
  with r show ?thesis by blast
qed

theorem LRU_update_after_touches_witness:
  "(0::size_t) < 3 \<and> list_all (\<lambda>t. t < (3::size_t)) [1, 0, 1]
   \<and> (\<exists>s. LRU_calls (map Touch [1, 0, 1] @ [Update]) (LRU_new 3) = Inr ([2], s))
   \<and> least_recently_touched 3 [1, 0, 1] 2"
proof -
  have n: "(0::size_t) < 3" and h: "list_all (\<lambda>t. t < (3::size_t)) [1, 0, 1]"
    by simp_all
  have e: "\<exists>s. LRU_calls (map Touch [1, 0, 1] @ [Update]) (LRU_new 3) = Inr ([2], s)"
    by (simp add: lru_eval)
  with LRU_update_after_touches [OF n h] have "least_recently_touched 3 [1, 0, 1] 2"
    by auto
  with n h e show ?thesis by (intro conjI)
qed

section \<open>The bit-tree engine\<close>

subsection \<open>The walks of the bit tree\<close>

lemma vector_max_size_less: "2 * vector_max_size + 2 < 2 ^ 64"
  by (simp add: vector_max_size_def)

lemma unat_vector_size:
  "length ns \<le> vector_max_size \<Longrightarrow> unat (vector_size ns) = length ns"
proof -
  assume "length ns \<le> vector_max_size"
  with vector_max_size_less have "length ns < 2 ^ 64" by simp
  then show ?thesis
    by (simp add: vector_size_def unat_of_nat take_bit_nat_eq_self)
qed

lemma get_next_node_step:
  assumes "length ns \<le> vector_max_size" and "unat node < length ns"
  shows "\<exists>node'. get_next_node ns node = Inr node' \<and> node < node'
           \<and> unat node < unat node' \<and> unat node' \<le> 2 * length ns"
proof -
  from assms vector_max_size_less have b: "2 * unat node + 2 < 2 ^ 64" by simp
  have "unat node * unat (2::size_t) < 2 ^ LENGTH(64)" using b by simp
  then have m: "unat (node * 2) = 2 * unat node"
    by (simp add: unat_mult_lem [THEN iffD1])
  have "unat (node * 2) + unat (1::size_t) < 2 ^ LENGTH(64)" using b m by simp
  then have one: "unat (node * 2 + 1) = 2 * unat node + 1"
    using m by (simp add: unat_add_lem [THEN iffD1])
  have "unat (node * 2) + unat (2::size_t) < 2 ^ LENGTH(64)" using b m by simp
  then have two: "unat (node * 2 + 2) = 2 * unat node + 2"
    using m by (simp add: unat_add_lem [THEN iffD1])
  show ?thesis
    using assms(2) one two
    by (simp add: get_next_node_def vector_read_def word_less_nat_alt)
qed


lemma PseudoLRU_update_loop_returns:
  assumes "length ns \<le> vector_max_size"
  shows "\<exists>leaf. PseudoLRU_update_loop ns node = Some (Inr leaf)
           \<and> (unat node \<le> 2 * length ns \<longrightarrow> unat leaf \<le> 2 * length ns)
           \<and> length ns \<le> unat leaf"
proof (induction "length ns - unat node" arbitrary: node rule: less_induct)
  case less
  have size: "unat (vector_size ns) = length ns"
    using assms by (rule unat_vector_size)
  show ?case
  proof (cases "unat node < length ns")
    case True
    from get_next_node_step [OF assms True] obtain node' where n: "get_next_node ns node = Inr node'"
      and up: "unat node < unat node'" and le: "unat node' \<le> 2 * length ns"
      by blast
    from True up have "length ns - unat node' < length ns - unat node" by simp
    from less [OF this] obtain leaf where "PseudoLRU_update_loop ns node' = Some (Inr leaf)"
      and "unat leaf \<le> 2 * length ns" and "length ns \<le> unat leaf"
      using le by blast
    moreover have "PseudoLRU_update_loop ns node = PseudoLRU_update_loop ns node'"
      using True n size by (subst PseudoLRU_update_loop.simps) (simp add: word_less_nat_alt)
    ultimately show ?thesis by simp
  next
    case False
    then have "PseudoLRU_update_loop ns node = Some (Inr node)"
      using size by (subst PseudoLRU_update_loop.simps) (simp add: word_less_nat_alt)
    with False show ?thesis by simp
  qed
qed

lemma unat_parent:
  "node \<noteq> 0 \<Longrightarrow> unat ((node - 1) div 2 :: size_t) = (unat node - 1) div 2"
  by (simp add: unat_div unat_minus_one)

lemma reverse_node_length: "reverse_node ns node = Inr ns' \<Longrightarrow> length ns' = length ns"
  by (auto simp: reverse_node_def vector_read_def vector_write_def split: if_splits)

lemma reverse_node_returns:
  "unat node < length ns \<Longrightarrow> \<exists>ns'. reverse_node ns node = Inr ns'"
  by (simp add: reverse_node_def vector_read_def vector_write_def)

lemma PseudoLRU_touch_loop_root: "PseudoLRU_touch_loop ns 0 = Inr ns"
  by (subst PseudoLRU_touch_loop.simps) simp

lemma PseudoLRU_touch_loop_length:
  "PseudoLRU_touch_loop ns node = Inr ns' \<Longrightarrow> length ns' = length ns"
proof (induction "unat node" arbitrary: ns node rule: less_induct)
  case less
  show ?case
  proof (cases "node = 0")
    case True
    with less.prems show ?thesis by (simp add: PseudoLRU_touch_loop_root)
  next
    case False
    define parent where "parent = (node - 1) div 2"
    from False have "unat parent < unat node"
      using unat_gt_0 [of node] by (simp add: parent_def unat_parent)
    note IH = less.hyps [OF this]
    from less.prems False show ?thesis
      by (auto simp: PseudoLRU_touch_loop.simps [of ns node] Let_def parent_def [symmetric]
          split: sum.splits if_splits dest!: IH reverse_node_length)
  qed
qed

lemma PseudoLRU_touch_loop_returns:
  "unat node \<le> 2 * length ns \<Longrightarrow> \<exists>ns'. PseudoLRU_touch_loop ns node = Inr ns'"
proof (induction "unat node" arbitrary: ns node rule: less_induct)
  case less
  show ?case
  proof (cases "node = 0")
    case True
    then show ?thesis by (simp add: PseudoLRU_touch_loop_root)
  next
    case False
    define parent where "parent = (node - 1) div 2"
    from False have p: "unat parent = (unat node - 1) div 2" and pos: "0 < unat node"
      by (simp_all add: parent_def unat_parent unat_gt_0)
    with less.prems have lt: "unat parent < unat node" and inb: "unat parent < length ns"
      by arith+
    then have read: "vector_read ns parent = Inr (ns ! unat parent)"
      by (simp add: vector_read_def)
    from inb obtain ns1 where rev: "reverse_node ns parent = Inr ns1"
      using reverse_node_returns by blast
    then have len1: "length ns1 = length ns" by (rule reverse_node_length)
    from inb have "unat parent \<le> 2 * length ns" by simp
    from less.hyps [OF lt this] obtain ns2 where a: "PseudoLRU_touch_loop ns parent = Inr ns2"
      by blast
    from inb len1 have "unat parent \<le> 2 * length ns1" by simp
    from less.hyps [OF lt this] obtain ns3 where b: "PseudoLRU_touch_loop ns1 parent = Inr ns3"
      by blast
    from False read rev a b show ?thesis
      by (simp add: PseudoLRU_touch_loop.simps [of ns node] Let_def parent_def [symmetric])
  qed
qed


subsection \<open>Calls on the bit tree\<close>

lemma PseudoLRU_touch_inv:
  "PseudoLRU_inv s \<Longrightarrow> PseudoLRU_touch way s = Inr s' \<Longrightarrow>
   PseudoLRU_inv s' \<and> PseudoLRU.ways s' = PseudoLRU.ways s"
  by (auto simp: PseudoLRU_touch_def PseudoLRU_inv_def split: sum.splits
      dest: PseudoLRU_touch_loop_length)

lemma PseudoLRU_touch_returns:
  assumes "PseudoLRU_inv s" and "way < PseudoLRU.ways s"
  shows "\<exists>s'. PseudoLRU_touch way s = Inr s'"
proof -
  from assms(1) have len: "length (nodes s) \<le> vector_max_size"
    and n: "unat (PseudoLRU.ways s) = Suc (length (nodes s))"
    by (simp_all add: PseudoLRU_inv_def)
  from assms(2) n have w: "unat way \<le> length (nodes s)"
    by (simp add: word_less_nat_alt)
  have "unat way + unat (vector_size (nodes s)) < 2 ^ LENGTH(64)"
    using w len vector_max_size_less by (simp add: unat_vector_size)
  then have "unat (way + vector_size (nodes s)) = unat way + length (nodes s)"
    using len by (simp add: unat_add_lem [THEN iffD1] unat_vector_size)
  with w have "unat (way + vector_size (nodes s)) \<le> 2 * length (nodes s)"
    by simp
  from PseudoLRU_touch_loop_returns [OF this] show ?thesis
    by (auto simp: PseudoLRU_touch_def)
qed

lemma PseudoLRU_update_returns:
  assumes "PseudoLRU_inv s"
  shows "\<exists>way s'. PseudoLRU_update s = Some (Inr (way, s')) \<and> way < PseudoLRU.ways s
           \<and> PseudoLRU_inv s' \<and> PseudoLRU.ways s' = PseudoLRU.ways s"
proof -
  from assms have len: "length (nodes s) \<le> vector_max_size"
    and n: "unat (PseudoLRU.ways s) = Suc (length (nodes s))"
    by (simp_all add: PseudoLRU_inv_def)
  have size: "unat (vector_size (nodes s)) = length (nodes s)"
    using len by (rule unat_vector_size)
  from PseudoLRU_update_loop_returns [OF len, of 0] obtain leaf
    where walk: "PseudoLRU_update_loop (nodes s) 0 = Some (Inr leaf)"
      and hi: "unat leaf \<le> 2 * length (nodes s)" and lo: "length (nodes s) \<le> unat leaf"
    by auto
  define way where "way = leaf - vector_size (nodes s)"
  from lo size have "vector_size (nodes s) \<le> leaf" by (simp add: word_le_nat_alt)
  then have "unat way = unat leaf - length (nodes s)"
    by (simp add: way_def unat_sub size)
  with hi n have w: "way < PseudoLRU.ways s" by (simp add: word_less_nat_alt)
  from PseudoLRU_touch_returns [OF assms w] obtain s' where t: "PseudoLRU_touch way s = Inr s'"
    by blast
  from PseudoLRU_touch_inv [OF assms t] walk t w show ?thesis
    by (simp add: PseudoLRU_update_def way_def [symmetric])
qed

lemma PseudoLRU_update_inv:
  "PseudoLRU_inv s \<Longrightarrow> PseudoLRU_update s = Some (Inr (way, s')) \<Longrightarrow>
   PseudoLRU_inv s' \<and> PseudoLRU.ways s' = PseudoLRU.ways s"
  using PseudoLRU_update_returns [of s] by auto

lemma PseudoLRU_new_inv:
  assumes "PseudoLRU_new n = Inr s"
  shows "PseudoLRU_inv s \<and> PseudoLRU.ways s = n"
proof -
  from assms have len: "unat (n - 1) \<le> vector_max_size" and p: "is_power_of_two n"
    and s: "s = \<lparr>nodes = replicate (unat (n - 1)) Left, ways = n\<rparr>"
    by (auto simp: PseudoLRU_new_def vector_new_def split: if_splits)
  from p have "n \<noteq> 0" by (auto simp: is_power_of_two_def)
  then have "unat n = Suc (unat (n - 1))"
    using unat_gt_0 [of n] by (simp add: unat_minus_one)
  with len s show ?thesis by (simp add: PseudoLRU_inv_def)
qed

lemma PseudoLRU_calls_inv:
  "PseudoLRU_inv s \<Longrightarrow> PseudoLRU_calls cs s = Some (Inr (ws, s')) \<Longrightarrow>
   PseudoLRU_inv s' \<and> PseudoLRU.ways s' = PseudoLRU.ways s"
proof (induction cs arbitrary: s ws)
  case Nil
  then show ?case by simp
next
  case (Cons c cs)
  show ?case
  proof (cases c)
    case (Touch w)
    with Cons.prems(2) obtain s1 where t: "PseudoLRU_touch w s = Inr s1"
      and r: "PseudoLRU_calls cs s1 = Some (Inr (ws, s'))"
      by (auto split: sum.splits)
    from PseudoLRU_touch_inv [OF Cons.prems(1) t] Cons.IH [OF _ r] show ?thesis by simp
  next
    case (SetToErase w)
    with Cons.prems(2) show ?thesis by (simp add: PseudoLRU_set_to_erase_def)
  next
    case Update
    with Cons.prems(2) obtain v s1 ws1 where u: "PseudoLRU_update s = Some (Inr (v, s1))"
      and r: "PseudoLRU_calls cs s1 = Some (Inr (ws1, s'))"
      by (auto split: option.splits sum.splits prod.splits)
    from PseudoLRU_update_inv [OF Cons.prems(1) u] Cons.IH [OF _ r] show ?thesis by simp
  qed
qed

text \<open>The states of an engine with four ways have three bits.\<close>

lemma PseudoLRU_four_ways_states:
  assumes "PseudoLRU_calls cs \<lparr>nodes = [Left, Left, Left], ways = 4\<rparr> = Some (Inr (ws, s))"
  shows "\<exists>a b c. s = \<lparr>nodes = [a, b, c], ways = 4\<rparr>"
proof -
  have "PseudoLRU_inv \<lparr>nodes = [Left, Left, Left], ways = 4\<rparr>"
    by (simp add: PseudoLRU_inv_def vector_max_size_def)
  from PseudoLRU_calls_inv [OF this assms]
  have inv: "PseudoLRU_inv s" and w: "PseudoLRU.ways s = 4"
    by simp_all
  from inv have "unat (PseudoLRU.ways s) = Suc (length (nodes s))"
    by (simp add: PseudoLRU_inv_def)
  with w have "Suc (length (nodes s)) = 4"
    by simp
  then have "length (nodes s) = 3"
    by arith
  then obtain a b c where "nodes s = [a, b, c]"
    by (auto simp: length_Suc_conv numeral_3_eq_3)
  with w have "s = \<lparr>nodes = [a, b, c], ways = 4\<rparr>" by simp
  then show ?thesis by blast
qed

text \<open>
  C10: in every state that a history of returned calls reaches from a constructed
  bit-tree engine, each step of the walk of \<^verbatim>\<open>update()\<close> reads its node inside the
  vector and moves to a strictly larger node index, the walk ends at a leaf, and
  \<^verbatim>\<open>update()\<close> returns a way below \<open>ways\<close>, with every access of its implicit touch
  in bounds as well.
\<close>

theorem PseudoLRU_update_walk_safe:
  assumes "PseudoLRU_new n = Inr s0" and "PseudoLRU_calls cs s0 = Some (Inr (ws, s))"
  shows "(\<forall>node. node < vector_size (nodes s) \<longrightarrow>
            (\<exists>node'. get_next_node (nodes s) node = Inr node' \<and> node < node'))
         \<and> (\<exists>leaf. PseudoLRU_update_loop (nodes s) 0 = Some (Inr leaf))
         \<and> (\<exists>way s'. PseudoLRU_update s = Some (Inr (way, s')) \<and> way < n)"
proof -
  from PseudoLRU_new_inv [OF assms(1)] have "PseudoLRU_inv s0" and "PseudoLRU.ways s0 = n"
    by simp_all
  with PseudoLRU_calls_inv [OF _ assms(2)] have inv: "PseudoLRU_inv s" and n: "PseudoLRU.ways s = n"
    by simp_all
  then have len: "length (nodes s) \<le> vector_max_size"
    by (simp add: PseudoLRU_inv_def)
  have "\<exists>node'. get_next_node (nodes s) node = Inr node' \<and> node < node'"
    if "node < vector_size (nodes s)" for node
  proof -
    from that have "unat node < length (nodes s)"
      by (simp add: word_less_nat_alt unat_vector_size [OF len])
    from get_next_node_step [OF len this] show ?thesis by blast
  qed
  moreover have "\<exists>leaf. PseudoLRU_update_loop (nodes s) 0 = Some (Inr leaf)"
    using PseudoLRU_update_loop_returns [OF len, of 0] by blast
  moreover have "\<exists>way s'. PseudoLRU_update s = Some (Inr (way, s')) \<and> way < n"
    using PseudoLRU_update_returns [OF inv] n by blast
  ultimately show ?thesis by blast
qed

theorem PseudoLRU_update_walk_safe_witness:
  "PseudoLRU_new 4 = Inr \<lparr>nodes = [Left, Left, Left], ways = 4\<rparr>
   \<and> PseudoLRU_calls [Touch 0, Update] \<lparr>nodes = [Left, Left, Left], ways = 4\<rparr>
       = Some (Inr ([2], \<lparr>nodes = [Left, Right, Right], ways = 4\<rparr>))
   \<and> (\<exists>leaf. PseudoLRU_update_loop (nodes \<lparr>nodes = [Left, Right, Right], ways = 4\<rparr>) 0 = Some (Inr leaf))
   \<and> (\<exists>way s'. PseudoLRU_update \<lparr>nodes = [Left, Right, Right], ways = 4\<rparr> = Some (Inr (way, s'))
          \<and> way < 4)"
proof -
  have a: "PseudoLRU_new 4 = Inr \<lparr>nodes = [Left, Left, Left], ways = 4\<rparr>"
    by (rule PseudoLRU_new_4)
  have b: "PseudoLRU_calls [Touch 0, Update] \<lparr>nodes = [Left, Left, Left], ways = 4\<rparr>
       = Some (Inr ([2], \<lparr>nodes = [Left, Right, Right], ways = 4\<rparr>))"
    by code_simp
  from a b PseudoLRU_update_walk_safe [OF a b] show ?thesis by blast
qed

end
